theory Spec2Isabelle
  imports Main "HOL-Library.Sublist"
begin

section \<open>Data model (types.ts)\<close>

text \<open>
  The enum \<open>Language\<close>, in the order of its declaration, and the list of its values in
  that order.
\<close>

datatype language = TAMIL | ENGLISH | HINDI | MALAYALAM | TELUGU

definition Language_values :: "language list" where
  "Language_values = [TAMIL, ENGLISH, HINDI, MALAYALAM, TELUGU]"

datatype classification = Human | AI_Generated

record technical_details =
  spectralAnomalies :: bool
  breathingPatterns :: string
  prosodyNaturalness :: string

text \<open>
  \<open>AnalysisResult\<close> is produced by the inference service only; the component stores and
  displays it and computes nothing from it. Its field \<open>language\<close> is named
  \<open>language_text\<close> here, since \<open>ScanRecord\<close> has a field of the same name; \<open>confidence\<close>,
  a number that the service is expected to give between 0 and 100, is an integer here.
\<close>

record analysis_result =
  classification :: classification
  confidence :: int
  language_text :: string
  reasoning :: "string list"
  technicalDetails :: technical_details

datatype scan_status = Pending | Completed | Error

text \<open>\<open>ScanRecord\<close>; its field \<open>id\<close> is \<open>id_of\<close>, \<open>null\<close> is \<open>None\<close>.\<close>

record scan_record =
  id_of :: string
  timestamp :: int
  fileName :: string
  language :: language
  result :: "analysis_result option"
  status :: scan_status

text \<open>The fields of a browser \<open>File\<close> that the component reads.\<close>

record File =
  file_name :: string
  file_type :: string
  file_size :: nat

text \<open>What a rejected promise carries: the reader's error event or the service's error.\<close>

datatype failure = ReadError | AnalysisError

section \<open>The component state (App.tsx, lines 9 to 13)\<close>

text \<open>
  The four \<open>useState\<close> cells and the ref of the file input. \<open>fileInputRef\<close> is \<open>None\<close>
  when \<open>fileInputRef.current\<close> is null and otherwise holds the \<open>value\<close> of the input
  element.
\<close>

record app_state =
  selectedLanguage :: language
  isAnalyzing :: bool
  history :: "scan_record list"
  currentFile :: "File option"
  fileInputRef :: "string option"

text \<open>
  The state of the first render, with the initial values given to \<open>useState\<close>; the input
  element is mounted and empty.
\<close>

definition App_initial :: app_state where
  "App_initial =
     \<lparr>selectedLanguage = ENGLISH, isAnalyzing = False, history = [],
      currentFile = None, fileInputRef = Some []\<rparr>"

section \<open>convertToBase64 (lines 15 to 25)\<close>

text \<open>JavaScript's \<open>s.split(c)\<close> for a one-character separator.\<close>

fun split_on :: "char \<Rightarrow> string \<Rightarrow> string list" where
  "split_on c [] = [[]]"
| "split_on c (x # xs) =
     (if x = c then [] # split_on c xs
      else (case split_on c xs of
              [] \<Rightarrow> [[x]]
            | y # ys \<Rightarrow> (x # y) # ys))"

text \<open>Indexing a JavaScript array: \<open>undefined\<close> (here \<open>None\<close>) out of range.\<close>

fun js_index :: "'a list \<Rightarrow> nat \<Rightarrow> 'a option" where
  "js_index [] n = None"
| "js_index (x # xs) 0 = Some x"
| "js_index (x # xs) (Suc n) = js_index xs n"

text \<open>
  The argument is what the \<open>FileReader\<close> does with the file: \<open>Inl\<close> when \<open>onerror\<close> fires,
  \<open>Inr url\<close> when \<open>onload\<close> fires with \<open>reader.result = url\<close>. The promise rejects with the
  error, or resolves with element 1 of the data URL split at commas.
\<close>

definition convertToBase64 :: "failure + string \<Rightarrow> failure + string option" where
  "convertToBase64 reader =
     (case reader of
        Inl error \<Rightarrow> Inl error
      | Inr url \<Rightarrow> Inr (js_index (split_on CHR '','' url) 1))"

section \<open>handleFileUpload (lines 27 to 32)\<close>

text \<open>
  The argument is \<open>e.target.files\<close>: \<open>None\<close> for null, otherwise the list of files.
  \<open>e.target.files?.[0]\<close> is the first file, if there is one.
\<close>

definition first_file :: "File list option \<Rightarrow> File option" where
  "first_file files =
     (case files of
        None \<Rightarrow> None
      | Some fs \<Rightarrow> js_index fs 0)"

definition handleFileUpload :: "File list option \<Rightarrow> app_state \<Rightarrow> app_state" where
  "handleFileUpload files s =
     (case first_file files of
        Some f \<Rightarrow> s\<lparr>currentFile := Some f\<rparr>
      | None \<Rightarrow> s)"

section \<open>runAnalysis (lines 34 to 71)\<close>

text \<open>
  \<open>runAnalysis\<close> is an async function with two awaits. Between its start and an await, and
  between an await and its end, it runs without interruption; while it waits, other
  handlers run. It is therefore modelled by its three segments. A suspended invocation
  is a \<open>task\<close>: the values its closure holds (\<open>newRecordId\<close>, \<open>currentFile\<close>,
  \<open>selectedLanguage\<close>) and the await it waits at, with the encoded audio it has passed to
  \<open>analyzeVoiceSample\<close> at the second one.
\<close>

datatype stage = AwaitEncode | AwaitAnalysis "string option"

record task =
  task_id :: string
  task_file :: File
  task_language :: language
  task_stage :: stage

text \<open>Lines 39 to 46: the record made for an invocation.\<close>

definition newRecord :: "string \<Rightarrow> int \<Rightarrow> File \<Rightarrow> language \<Rightarrow> scan_record" where
  "newRecord newRecordId now f lang =
     \<lparr>id_of = newRecordId, timestamp = now, fileName = file_name f, language = lang,
      result = None, status = Pending\<rparr>"

text \<open>
  Lines 35 to 51, up to the first await. \<open>newRecordId\<close> and \<open>now\<close> are what
  \<open>crypto.randomUUID()\<close> and \<open>Date.now()\<close> return when they are called. Without a file
  the function returns at once and nothing is suspended.
\<close>

definition runAnalysis_begin :: "string \<Rightarrow> int \<Rightarrow> app_state \<Rightarrow> app_state \<times> task option" where
  "runAnalysis_begin newRecordId now s =
     (case currentFile s of
        None \<Rightarrow> (s, None)
      | Some f \<Rightarrow>
          (let s1 = s\<lparr>isAnalyzing := True\<rparr>;
               s2 = s1\<lparr>history := newRecord newRecordId now f (selectedLanguage s) # history s1\<rparr>
           in (s2, Some \<lparr>task_id = newRecordId, task_file = f,
                         task_language = selectedLanguage s, task_stage = AwaitEncode\<rparr>)))"

text \<open>The two updaters passed to \<open>setHistory\<close> at lines 54 to 58 and 61 to 65.\<close>

definition mark_completed :: "string \<Rightarrow> analysis_result \<Rightarrow> scan_record list \<Rightarrow> scan_record list" where
  "mark_completed newRecordId res prev =
     map (\<lambda>rec. if id_of rec = newRecordId
                then rec\<lparr>status := Completed, result := Some res\<rparr>
                else rec) prev"

definition mark_error :: "string \<Rightarrow> scan_record list \<Rightarrow> scan_record list" where
  "mark_error newRecordId prev =
     map (\<lambda>rec. if id_of rec = newRecordId
                then rec\<lparr>status := Error\<rparr>
                else rec) prev"

text \<open>Lines 66 to 70.\<close>

definition finally_block :: "app_state \<Rightarrow> app_state" where
  "finally_block s =
     s\<lparr>isAnalyzing := False, currentFile := None,
       fileInputRef := (case fileInputRef s of None \<Rightarrow> None | Some v \<Rightarrow> Some [])\<rparr>"

text \<open>
  The end of the \<open>try\<close> statement, from the point where the outcome \<open>tried\<close> of the awaited
  calls is known: \<open>Inr res\<close> when both resolved, \<open>Inl error\<close> when one of them rejected.
  First the rest of the \<open>try\<close> block (lines 54 to 58), which is left with the thrown value
  on a rejection; then the \<open>catch\<close> clause (lines 59 to 65), which binds whatever was
  thrown (\<open>console.error\<close> changes no state); then the \<open>finally\<close> block. The result is
  the state and the exception, if any, that leaves \<open>runAnalysis\<close>.
\<close>

definition runAnalysis_settle ::
  "string \<Rightarrow> failure + analysis_result \<Rightarrow> app_state \<Rightarrow> app_state \<times> failure option" where
  "runAnalysis_settle newRecordId tried s =
     (let (s1, thrown1) =
            (case tried of
               Inr res \<Rightarrow> (s\<lparr>history := mark_completed newRecordId res (history s)\<rparr>, None)
             | Inl error \<Rightarrow> (s, Some error));
          (s2, thrown2) =
            (case thrown1 of
               Some error \<Rightarrow> (s1\<lparr>history := mark_error newRecordId (history s1)\<rparr>, None)
             | None \<Rightarrow> (s1, None))
      in (finally_block s2, thrown2))"

text \<open>
  Line 51 after the await, and line 52 up to its await. When the encoding resolved, the
  invocation calls \<open>analyzeVoiceSample\<close> and is suspended again (\<open>Inr\<close>, the task at its
  new stage); when it rejected, the invocation ends through \<open>catch\<close> and \<open>finally\<close>
  (\<open>Inl\<close>, with the exception that leaves it).
\<close>

definition runAnalysis_encoded ::
  "task \<Rightarrow> failure + string \<Rightarrow> app_state \<Rightarrow> app_state \<times> (failure option + task)" where
  "runAnalysis_encoded t reader s =
     (case convertToBase64 reader of
        Inl error \<Rightarrow>
          (let (s', thrown) = runAnalysis_settle (task_id t) (Inl error) s
           in (s', Inl thrown))
      | Inr base64 \<Rightarrow> (s, Inr (t\<lparr>task_stage := AwaitAnalysis base64\<rparr>)))"

section \<open>The page as a transition system\<close>

text \<open>
  What can happen on the page: the handlers that the markup binds (\<open>onChange\<close> of the
  file input, \<open>onClick\<close> of the remove button, \<open>onSelect\<close> of the language selector,
  \<open>onClick\<close> of the analysis button) and the settling of a promise that a suspended
  invocation waits for. \<open>Run\<close> carries what \<open>crypto.randomUUID()\<close> and \<open>Date.now()\<close>
  return in that invocation; the two settling events name the invocation by its
  \<open>newRecordId\<close>. The markup disables the analysis button while \<open>isAnalyzing\<close> holds;
  \<open>runAnalysis\<close> itself has no such guard, and neither has the model. A handler reads
  the state that the last render committed, which is the state of the page when the
  event arrives; an update passed to \<open>setHistory\<close> as a function is applied to the
  history of that moment.
\<close>

datatype event =
    Change "File list option"
  | RemoveFile
  | Select language
  | Run string int
  | ReaderSettles string "failure + string"
  | AnalysisSettles string "failure + analysis_result"

text \<open>
  The page: the component state, the suspended invocations, and the exceptions that
  have left an invocation of \<open>runAnalysis\<close> uncaught.
\<close>

record page =
  app :: app_state
  tasks :: "task list"
  unhandled :: "failure list"

text \<open>
  The first suspended invocation with the given id, and the others. The order of the
  suspended invocations has no meaning.
\<close>

fun take_task :: "string \<Rightarrow> task list \<Rightarrow> (task \<times> task list) option" where
  "take_task u [] = None"
| "take_task u (t # ts) =
     (if task_id t = u then Some (t, ts)
      else (case take_task u ts of
              None \<Rightarrow> None
            | Some (t', ts') \<Rightarrow> Some (t', t # ts')))"

definition raise_unhandled :: "failure option \<Rightarrow> failure list \<Rightarrow> failure list" where
  "raise_unhandled thrown es =
     (case thrown of None \<Rightarrow> es | Some e \<Rightarrow> e # es)"

fun step :: "event \<Rightarrow> page \<Rightarrow> page" where
  "step (Change files) p = p\<lparr>app := handleFileUpload files (app p)\<rparr>"
| "step RemoveFile p = p\<lparr>app := (app p)\<lparr>currentFile := None\<rparr>\<rparr>"
| "step (Select lang) p = p\<lparr>app := (app p)\<lparr>selectedLanguage := lang\<rparr>\<rparr>"
| "step (Run newRecordId now) p =
     (case runAnalysis_begin newRecordId now (app p) of
        (s, None) \<Rightarrow> p\<lparr>app := s\<rparr>
      | (s, Some t) \<Rightarrow> p\<lparr>app := s, tasks := t # tasks p\<rparr>)"
| "step (ReaderSettles u reader) p =
     (case take_task u (tasks p) of
        None \<Rightarrow> p
      | Some (t, ts) \<Rightarrow>
          (case task_stage t of
             AwaitAnalysis b \<Rightarrow> p
           | AwaitEncode \<Rightarrow>
               (case runAnalysis_encoded t reader (app p) of
                  (s, Inr t') \<Rightarrow> p\<lparr>app := s, tasks := t' # ts\<rparr>
                | (s, Inl thrown) \<Rightarrow>
                    p\<lparr>app := s, tasks := ts,
                      unhandled := raise_unhandled thrown (unhandled p)\<rparr>)))"
| "step (AnalysisSettles u outcome) p =
     (case take_task u (tasks p) of
        None \<Rightarrow> p
      | Some (t, ts) \<Rightarrow>
          (case task_stage t of
             AwaitEncode \<Rightarrow> p
           | AwaitAnalysis b \<Rightarrow>
               (case runAnalysis_settle (task_id t) outcome (app p) of
                  (s, thrown) \<Rightarrow>
                    p\<lparr>app := s, tasks := ts,
                      unhandled := raise_unhandled thrown (unhandled p)\<rparr>)))"

fun exec :: "event list \<Rightarrow> page \<Rightarrow> page" where
  "exec [] p = p"
| "exec (e # es) p = exec es (step e p)"

definition page_initial :: page where
  "page_initial = \<lparr>app = App_initial, tasks = [], unhandled = []\<rparr>"

section \<open>Notions used to state the properties\<close>

text \<open>The records of a history that carry a given id.\<close>

definition records_with :: "string \<Rightarrow> scan_record list \<Rightarrow> scan_record list" where
  "records_with u h = filter (\<lambda>rec. id_of rec = u) h"

text \<open>The fields of a record that are written when it is made and at no later line.\<close>

definition stored :: "scan_record \<Rightarrow> string \<times> int \<times> string \<times> language" where
  "stored rec = (id_of rec, timestamp rec, fileName rec, language rec)"

text \<open>
  An event is about the invocation \<open>u\<close> when it starts an invocation that draws the id
  \<open>u\<close> or settles a promise of the invocation \<open>u\<close>; it regenerates \<open>u\<close> in the first case.
\<close>

fun about :: "string \<Rightarrow> event \<Rightarrow> bool" where
  "about u (Run v now) = (v = u)"
| "about u (ReaderSettles v reader) = (v = u)"
| "about u (AnalysisSettles v outcome) = (v = u)"
| "about u e = False"

fun regenerates :: "string \<Rightarrow> event \<Rightarrow> bool" where
  "regenerates u (Run v now) = (v = u)"
| "regenerates u e = False"

text \<open>
  The contract of \<open>crypto.randomUUID()\<close> along a run: the id it returns is the id of no
  record in the history at that moment.
\<close>

fun uuid_fresh :: "event list \<Rightarrow> page \<Rightarrow> bool" where
  "uuid_fresh [] p = True"
| "uuid_fresh (e # es) p =
     ((case e of
         Run u now \<Rightarrow> u \<notin> set (map id_of (history (app p)))
       | _ \<Rightarrow> True)
      \<and> uuid_fresh es (step e p))"

text \<open>
  The pages that runs with fresh ids reach: ids are distinct in the history and among
  the suspended invocations, and every suspended invocation has its record, still
  pending.
\<close>

definition page_ok :: "page \<Rightarrow> bool" where
  "page_ok p =
     (distinct (map id_of (history (app p)))
      \<and> distinct (map task_id (tasks p))
      \<and> (\<forall>t \<in> set (tasks p). \<exists>rec \<in> set (history (app p)).
            id_of rec = task_id t \<and> status rec = Pending \<and> result rec = None))"

text \<open>
  An event ends an invocation when it settles the promise that a suspended invocation
  waits for and the invocation then runs to its end: the reader's error at the first
  await, the service's answer or error at the second.
\<close>

fun ends_invocation :: "event \<Rightarrow> page \<Rightarrow> bool" where
  "ends_invocation (ReaderSettles u (Inl error)) p =
     (case take_task u (tasks p) of
        None \<Rightarrow> False
      | Some (t, ts) \<Rightarrow> task_stage t = AwaitEncode)"
| "ends_invocation (AnalysisSettles u outcome) p =
     (case take_task u (tasks p) of
        None \<Rightarrow> False
      | Some (t, ts) \<Rightarrow> task_stage t \<noteq> AwaitEncode)"
| "ends_invocation e p = False"

text \<open>
  A submission made while nothing else happens: the user stages a file and starts the
  analysis, the reader settles, and the service settles. When the reader fails the
  invocation has ended by then, and the last event finds nothing to settle.
\<close>

record submission =
  sub_file :: File
  sub_uuid :: string
  sub_now :: int
  sub_reader :: "failure + string"
  sub_analysis :: "failure + analysis_result"

definition submit_events :: "submission \<Rightarrow> event list" where
  "submit_events sub =
     [Change (Some [sub_file sub]),
      Run (sub_uuid sub) (sub_now sub),
      ReaderSettles (sub_uuid sub) (sub_reader sub),
      AnalysisSettles (sub_uuid sub) (sub_analysis sub)]"

definition submit_all :: "submission list \<Rightarrow> page \<Rightarrow> page" where
  "submit_all subs p = exec (concat (map submit_events subs)) p"

section \<open>A sample session\<close>

text \<open>
  The values of the scenario that the specification describes: the user selects Hindi,
  stages \<open>sample.wav\<close> (2 MB) and the service answers \<open>Human\<close> with confidence 92.
\<close>

definition sample_wav :: File where
  "sample_wav = \<lparr>file_name = ''sample.wav'', file_type = ''audio/wav'', file_size = 2097152\<rparr>"

definition human_92 :: analysis_result where
  "human_92 =
     \<lparr>classification = Human, confidence = 92, language_text = ''Hindi'', reasoning = [],
      technicalDetails =
        \<lparr>spectralAnomalies = False, breathingPatterns = ''natural'',
         prosodyNaturalness = ''high''\<rparr>\<rparr>"

definition staged_page :: page where
  "staged_page =
     \<lparr>app = \<lparr>selectedLanguage = HINDI, isAnalyzing = False, history = [],
             currentFile = Some sample_wav, fileInputRef = Some ''sample.wav''\<rparr>,
      tasks = [], unhandled = []\<rparr>"

text \<open>A page on which one analysis has completed and another has failed.\<close>

definition settled_page :: page where
  "settled_page =
     \<lparr>app = \<lparr>selectedLanguage = TAMIL, isAnalyzing = False,
             history =
               [\<lparr>id_of = ''id2'', timestamp = 2000, fileName = ''sample.wav'', language = TAMIL,
                 result = None, status = Error\<rparr>,
                \<lparr>id_of = ''id1'', timestamp = 1000, fileName = ''sample.wav'', language = HINDI,
                 result = Some human_92, status = Completed\<rparr>],
             currentFile = None, fileInputRef = Some []\<rparr>,
      tasks = [], unhandled = []\<rparr>"

text \<open>
  A page on which two invocations are suspended: the older one waits for the service,
  the newer one for the reader.
\<close>

definition two_pending :: page where
  "two_pending =
     \<lparr>app = \<lparr>selectedLanguage = TAMIL, isAnalyzing = True,
             history =
               [\<lparr>id_of = ''id2'', timestamp = 2000, fileName = ''sample.wav'', language = TAMIL,
                 result = None, status = Pending\<rparr>,
                \<lparr>id_of = ''id1'', timestamp = 1000, fileName = ''sample.wav'', language = HINDI,
                 result = None, status = Pending\<rparr>],
             currentFile = Some sample_wav, fileInputRef = Some ''sample.wav''\<rparr>,
      tasks =
        [\<lparr>task_id = ''id2'', task_file = sample_wav, task_language = TAMIL,
          task_stage = AwaitEncode\<rparr>,
         \<lparr>task_id = ''id1'', task_file = sample_wav, task_language = HINDI,
          task_stage = AwaitAnalysis (Some ''UklGR'')\<rparr>],
      unhandled = []\<rparr>"

text \<open>Two submissions made one after the other; the second fails at the reader.\<close>

definition first_submission :: submission where
  "first_submission =
     \<lparr>sub_file = sample_wav, sub_uuid = ''id1'', sub_now = 1000,
      sub_reader = Inr ''data:audio/wav;base64,UklGR'', sub_analysis = Inr human_92\<rparr>"

definition second_submission :: submission where
  "second_submission =
     \<lparr>sub_file = sample_wav, sub_uuid = ''id2'', sub_now = 2000,
      sub_reader = Inl ReadError, sub_analysis = Inl AnalysisError\<rparr>"

text \<open>
  Two further submissions that can follow the first one: at the first of them
  \<open>Date.now()\<close> returns the value it returned before, at the second the clock has been
  set back.
\<close>

definition same_ms_submission :: submission where
  "same_ms_submission =
     \<lparr>sub_file = sample_wav, sub_uuid = ''id2'', sub_now = 1000,
      sub_reader = Inr ''data:audio/wav;base64,UklGR'', sub_analysis = Inr human_92\<rparr>"

definition clock_back_submission :: submission where
  "clock_back_submission =
     \<lparr>sub_file = sample_wav, sub_uuid = ''id2'', sub_now = 900,
      sub_reader = Inr ''data:audio/wav;base64,UklGR'', sub_analysis = Inr human_92\<rparr>"

section \<open>File intake and the language selector\<close>

lemmas sample_defs =
  staged_page_def sample_wav_def human_92_def page_initial_def App_initial_def

lemmas run_defs =
  handleFileUpload_def first_file_def runAnalysis_begin_def runAnalysis_encoded_def
  runAnalysis_settle_def convertToBase64_def finally_block_def mark_completed_def
  mark_error_def newRecord_def raise_unhandled_def records_with_def stored_def
  submit_all_def submit_events_def Let_def

text \<open>
  C10. A change event of the file input that carries no file, because \<open>e.target.files\<close>
  is null or is empty, leaves the component state as it is; the staged file in
  particular is neither cleared nor replaced.
\<close>

theorem handleFileUpload_no_file:
  "handleFileUpload None s = s \<and> handleFileUpload (Some []) s = s
   \<and> currentFile (app (step (Change None) p)) = currentFile (app p)
   \<and> currentFile (app (step (Change (Some [])) p)) = currentFile (app p)"
  by (simp add: handleFileUpload_def first_file_def)

text \<open>
  C9, as the specification states it: the language selected at the start is the first
  value of the enumeration, Tamil. It is not: the first value is \<open>TAMIL\<close>, and
  \<open>useState\<close> is given \<open>Language.ENGLISH\<close>.
\<close>

theorem default_language_not_first:
  "selectedLanguage (app page_initial) \<noteq> hd Language_values"
  by (simp add: page_initial_def App_initial_def Language_values_def)

text \<open>
  C9, amended. The language selected at the start is English, the second value of the
  enumeration, whose values are Tamil, English, Hindi, Malayalam and Telugu and no
  others.
\<close>

theorem default_language_english:
  "selectedLanguage (app page_initial) = ENGLISH
   \<and> Language_values ! 1 = ENGLISH
   \<and> Language_values ! 0 = TAMIL
   \<and> set Language_values = UNIV"
proof -
  have "x \<in> set Language_values" for x
    by (cases x) (simp_all add: Language_values_def)
  then show ?thesis
    by (auto simp add: page_initial_def App_initial_def Language_values_def)
qed

section \<open>Starting an analysis\<close>

text \<open>
  C4. When no file is staged, an invocation of \<open>runAnalysis\<close> changes nothing: the page
  after it is the page before it, so no record is made, the history, \<open>isAnalyzing\<close>, the
  staged file and the selected language are as before, and no invocation is suspended.
\<close>

theorem runAnalysis_without_file_noop:
  assumes "currentFile (app p) = None"
  shows "step (Run u now) p = p \<and> runAnalysis_begin u now (app p) = (app p, None)"
  using assms by (simp add: runAnalysis_begin_def)

theorem runAnalysis_without_file_noop_witness:
  "step (Run ''id1'' 1000) page_initial = page_initial
   \<and> runAnalysis_begin ''id1'' 1000 (app page_initial) = (app page_initial, None)"
proof -
  have "currentFile (app page_initial) = None"
    by (simp add: page_initial_def App_initial_def)
  from runAnalysis_without_file_noop [OF this] show ?thesis by simp
qed

text \<open>
  C1. When a file is staged, an invocation of \<open>runAnalysis\<close> puts exactly one new record
  in front of the history before it is suspended at its first await: the record has the
  id that was generated, the name of the staged file, the language selected at that
  moment, status pending and no result. When the generated id is the id of no record
  already in the history, the new record is the only one with that id.
\<close>

theorem runAnalysis_prepends_pending_record:
  assumes "currentFile (app p) = Some f"
  shows "history (app (step (Run u now) p)) =
           \<lparr>id_of = u, timestamp = now, fileName = file_name f,
            language = selectedLanguage (app p), result = None, status = Pending\<rparr>
           # history (app p)
       \<and> tasks (step (Run u now) p) =
           \<lparr>task_id = u, task_file = f, task_language = selectedLanguage (app p),
            task_stage = AwaitEncode\<rparr> # tasks p
       \<and> (u \<notin> set (map id_of (history (app p))) \<longrightarrow>
            records_with u (history (app (step (Run u now) p))) =
              [\<lparr>id_of = u, timestamp = now, fileName = file_name f,
                language = selectedLanguage (app p), result = None, status = Pending\<rparr>])"
  using assms
  by (auto simp add: runAnalysis_begin_def newRecord_def records_with_def Let_def filter_empty_conv)

theorem runAnalysis_prepends_pending_record_witness:
  "history (app (step (Run ''id1'' 1000) staged_page)) =
     [\<lparr>id_of = ''id1'', timestamp = 1000, fileName = ''sample.wav'', language = HINDI,
       result = None, status = Pending\<rparr>]
   \<and> tasks (step (Run ''id1'' 1000) staged_page) =
       [\<lparr>task_id = ''id1'', task_file = sample_wav, task_language = HINDI,
         task_stage = AwaitEncode\<rparr>]
   \<and> records_with ''id1'' (history (app (step (Run ''id1'' 1000) staged_page))) =
       [\<lparr>id_of = ''id1'', timestamp = 1000, fileName = ''sample.wav'', language = HINDI,
         result = None, status = Pending\<rparr>]"
proof -
  have staged: "currentFile (app staged_page) = Some sample_wav"
    by (simp add: staged_page_def)
  have fresh: "''id1'' \<notin> set (map id_of (history (app staged_page)))"
    by (simp add: staged_page_def)
  show ?thesis
    using runAnalysis_prepends_pending_record [OF staged, of "''id1''" 1000] fresh
    by (simp add: sample_defs run_defs)
qed

section \<open>Suspended invocations and the frame of a step\<close>

lemma take_task_None: "(take_task u ts = None) = (filter (\<lambda>t. task_id t = u) ts = [])"
  by (induction ts) (auto split: option.splits)

lemma take_task_Some:
  "take_task u ts = Some (t, ts') \<Longrightarrow>
     task_id t = u \<and> t \<in> set ts \<and> set ts = insert t (set ts') \<and> length ts = Suc (length ts')"
  by (induction ts arbitrary: ts') (auto split: if_splits option.splits)

lemma take_task_other:
  "take_task u ts = Some (t, ts') \<Longrightarrow> v \<noteq> u \<Longrightarrow>
     filter (\<lambda>t. task_id t = v) ts' = filter (\<lambda>t. task_id t = v) ts"
  by (induction ts arbitrary: ts') (auto split: if_splits option.splits)

lemma take_task_single:
  "filter (\<lambda>t. task_id t = u) ts = [t] \<Longrightarrow>
     \<exists>ts'. take_task u ts = Some (t, ts') \<and> filter (\<lambda>t. task_id t = u) ts' = []"
  by (induction ts) (auto split: if_splits option.splits simp: take_task_None)

lemma take_task_distinct:
  "take_task u ts = Some (t, ts') \<Longrightarrow> distinct (map task_id ts) \<Longrightarrow>
     distinct (map task_id ts') \<and> u \<notin> set (map task_id ts')"
  by (induction ts arbitrary: ts') (force split: if_splits option.splits dest: take_task_Some)+

lemma records_with_mark_error_other:
  "v \<noteq> u \<Longrightarrow> records_with u (mark_error v h) = records_with u h"
  by (induction h) (auto simp: records_with_def mark_error_def)

lemma records_with_mark_completed_other:
  "v \<noteq> u \<Longrightarrow> records_with u (mark_completed v res h) = records_with u h"
  by (induction h) (auto simp: records_with_def mark_completed_def)

lemma records_with_mark_error:
  "records_with u (mark_error u h) = map (\<lambda>rec. rec\<lparr>status := Error\<rparr>) (records_with u h)"
  by (induction h) (auto simp: records_with_def mark_error_def)

lemma records_with_mark_completed:
  "records_with u (mark_completed u res h) =
     map (\<lambda>rec. rec\<lparr>status := Completed, result := Some res\<rparr>) (records_with u h)"
  by (induction h) (auto simp: records_with_def mark_completed_def)

lemma history_settle:
  "history (fst (runAnalysis_settle v tried s)) =
     (case tried of Inr res \<Rightarrow> mark_completed v res (history s) | Inl e \<Rightarrow> mark_error v (history s))"
  by (simp add: runAnalysis_settle_def finally_block_def split: sum.splits)

lemma thrown_settle: "snd (runAnalysis_settle v tried s) = None"
  by (simp add: runAnalysis_settle_def split: sum.splits)

lemma records_with_settle_other:
  "v \<noteq> u \<Longrightarrow> records_with u (history (fst (runAnalysis_settle v tried s))) = records_with u (history s)"
  by (simp add: history_settle records_with_mark_error_other records_with_mark_completed_other split: sum.splits)

lemma settle_eq:
  "\<exists>s'. runAnalysis_settle v tried s = (s', None)"
  by (simp add: runAnalysis_settle_def split: sum.splits)

lemma step_reader_ok:
  assumes "take_task v (tasks p) = Some (t, ts)" and "task_stage t = AwaitEncode"
  shows "step (ReaderSettles v (Inr url)) p =
           p\<lparr>tasks := t\<lparr>task_stage := AwaitAnalysis (js_index (split_on CHR '','' url) 1)\<rparr> # ts\<rparr>"
  using assms by (simp add: runAnalysis_encoded_def convertToBase64_def)

lemma step_reader_fail:
  assumes "take_task v (tasks p) = Some (t, ts)" and "task_stage t = AwaitEncode"
  shows "step (ReaderSettles v (Inl e)) p =
           p\<lparr>app := fst (runAnalysis_settle v (Inl e) (app p)), tasks := ts\<rparr>"
proof -
  have "task_id t = v" using take_task_Some [OF assms(1)] by simp
  moreover obtain s' where "runAnalysis_settle v (Inl e) (app p) = (s', None)"
    using settle_eq by blast
  ultimately show ?thesis
    using assms
    by (simp add: runAnalysis_encoded_def convertToBase64_def raise_unhandled_def)
qed

lemma step_analysis:
  assumes "take_task v (tasks p) = Some (t, ts)" and "task_stage t = AwaitAnalysis b"
  shows "step (AnalysisSettles v outcome) p =
           p\<lparr>app := fst (runAnalysis_settle v outcome (app p)), tasks := ts\<rparr>"
proof -
  have "task_id t = v" using take_task_Some [OF assms(1)] by simp
  moreover obtain s' where "runAnalysis_settle v outcome (app p) = (s', None)"
    using settle_eq by blast
  ultimately show ?thesis
    using assms by (simp add: raise_unhandled_def)
qed

lemma step_analysis_ignored:
  "take_task v (tasks p) = None \<or> (\<exists>t ts. take_task v (tasks p) = Some (t, ts) \<and> task_stage t = AwaitEncode)
     \<Longrightarrow> step (AnalysisSettles v outcome) p = p"
  by auto

lemma step_frame:
  assumes "\<not> about u e"
  shows "records_with u (history (app (step e p))) = records_with u (history (app p))
       \<and> filter (\<lambda>t. task_id t = u) (tasks (step e p)) = filter (\<lambda>t. task_id t = u) (tasks p)"
proof (cases e)
  case (Change files)
  then show ?thesis by (simp add: handleFileUpload_def split: option.splits)
next
  case RemoveFile
  then show ?thesis by simp
next
  case (Select lang)
  then show ?thesis by simp
next
  case (Run v now)
  with assms have "v \<noteq> u" by simp
  with Run show ?thesis
    by (auto simp: runAnalysis_begin_def newRecord_def records_with_def Let_def split: option.splits)
next
  case (ReaderSettles v reader)
  with assms have ne: "v \<noteq> u" by simp
  show ?thesis
  proof (cases "take_task v (tasks p)")
    case None
    with ReaderSettles show ?thesis by simp
  next
    case (Some a)
    obtain t ts where tt: "take_task v (tasks p) = Some (t, ts)"
      using Some by (cases a) simp
    have idt: "task_id t = v" using take_task_Some [OF tt] by simp
    have flt: "filter (\<lambda>t. task_id t = u) ts = filter (\<lambda>t. task_id t = u) (tasks p)"
      using take_task_other [OF tt, of u] ne by simp
    show ?thesis
    proof (cases "task_stage t")
      case AwaitEncode
      show ?thesis
      proof (cases reader)
        case (Inl err)
        show ?thesis
          unfolding ReaderSettles Inl step_reader_fail [OF tt AwaitEncode]
          using flt records_with_settle_other [OF ne] by simp
      next
        case (Inr url)
        show ?thesis
          unfolding ReaderSettles Inr step_reader_ok [OF tt AwaitEncode]
          using flt idt ne by simp
      qed
    next
      case (AwaitAnalysis b)
      then have "step (ReaderSettles v reader) p = p" using tt by simp
      then show ?thesis using ReaderSettles by simp
    qed
  qed
next
  case (AnalysisSettles v outcome)
  with assms have ne: "v \<noteq> u" by simp
  show ?thesis
  proof (cases "take_task v (tasks p)")
    case None
    with AnalysisSettles show ?thesis by simp
  next
    case (Some a)
    obtain t ts where tt: "take_task v (tasks p) = Some (t, ts)"
      using Some by (cases a) simp
    have flt: "filter (\<lambda>t. task_id t = u) ts = filter (\<lambda>t. task_id t = u) (tasks p)"
      using take_task_other [OF tt, of u] ne by simp
    show ?thesis
    proof (cases "task_stage t")
      case AwaitEncode
      then have "step (AnalysisSettles v outcome) p = p" using tt by simp
      then show ?thesis using AnalysisSettles by simp
    next
      case (AwaitAnalysis b)
      show ?thesis
        unfolding AnalysisSettles step_analysis [OF tt AwaitAnalysis]
        using flt records_with_settle_other [OF ne] by simp
    qed
  qed
qed


lemma exec_frame:
  "\<forall>e \<in> set es. \<not> about u e \<Longrightarrow>
     records_with u (history (app (exec es p))) = records_with u (history (app p))
     \<and> filter (\<lambda>t. task_id t = u) (tasks (exec es p)) = filter (\<lambda>t. task_id t = u) (tasks p)"
proof (induction es arbitrary: p)
  case Nil
  then show ?case by simp
next
  case (Cons e es)
  then have "\<not> about u e" and "\<forall>e \<in> set es. \<not> about u e" by simp_all
  then show ?case
    using Cons.IH [of "step e p"] step_frame [of u e p] by simp
qed

lemma step_gone:
  assumes "filter (\<lambda>t. task_id t = u) (tasks p) = []" and "\<not> regenerates u e"
  shows "records_with u (history (app (step e p))) = records_with u (history (app p))
       \<and> filter (\<lambda>t. task_id t = u) (tasks (step e p)) = []"
proof (cases "about u e")
  case False
  then show ?thesis using step_frame [of u e p] assms(1) by simp
next
  case True
  have none: "take_task u (tasks p) = None" using assms(1) by (simp add: take_task_None)
  from True assms(2) have "step e p = p"
    using none by (cases e) simp_all
  then show ?thesis using assms(1) by simp
qed

lemma exec_gone:
  "filter (\<lambda>t. task_id t = u) (tasks p) = [] \<Longrightarrow> \<forall>e \<in> set es. \<not> regenerates u e \<Longrightarrow>
     records_with u (history (app (exec es p))) = records_with u (history (app p))"
proof (induction es arbitrary: p)
  case Nil
  then show ?case by simp
next
  case (Cons e es)
  then have e: "\<not> regenerates u e" and es: "\<forall>e \<in> set es. \<not> regenerates u e" by simp_all
  show ?case
    using Cons.IH [of "step e p"] step_gone [OF Cons.prems(1) e] es by simp
qed

lemma step_run_fresh:
  assumes "currentFile (app p) = Some f"
    and "u \<notin> set (map id_of (history (app p)))"
    and "u \<notin> set (map task_id (tasks p))"
  shows "records_with u (history (app (step (Run u now) p))) =
           [newRecord u now f (selectedLanguage (app p))]
       \<and> filter (\<lambda>t. task_id t = u) (tasks (step (Run u now) p)) =
           [\<lparr>task_id = u, task_file = f, task_language = selectedLanguage (app p),
             task_stage = AwaitEncode\<rparr>]"
  using assms
  by (auto simp: runAnalysis_begin_def newRecord_def records_with_def Let_def filter_empty_conv)

section \<open>The life of one submission\<close>

text \<open>
  C2. Take a submission whose encoding and inference both succeed: \<open>runAnalysis\<close> starts
  with a file staged and draws an id \<open>u\<close> that no record and no suspended invocation
  has; any events that are not about \<open>u\<close> follow (\<open>es1\<close>); the reader loads the file; any
  events that are not about \<open>u\<close> follow (\<open>es2\<close>); the service answers \<open>res\<close>; and any
  events that do not draw \<open>u\<close> again follow (\<open>es3\<close>). Then, from its creation up to the
  answer, the one record with id \<open>u\<close> is the pending record without a result; at the
  answer it becomes that record with status completed and result \<open>res\<close>; and whatever
  follows, it stays that record. The result is thus set once and never overwritten.
  The hypotheses on the events say that \<open>crypto.randomUUID()\<close> returns \<open>u\<close> once and that
  each of the two awaited promises settles once.
\<close>

theorem success_completes_record_once:
  fixes p0 :: page and u :: string and now :: int and f :: File
    and es1 es2 es3 :: "event list" and url :: string and res :: analysis_result
  defines "r \<equiv> newRecord u now f (selectedLanguage (app p0))"
    and "p1 \<equiv> exec es1 (step (Run u now) p0)"
  defines "p2 \<equiv> exec es2 (step (ReaderSettles u (Inr url)) p1)"
  defines "p3 \<equiv> step (AnalysisSettles u (Inr res)) p2"
  defines "p4 \<equiv> exec es3 p3"
  assumes staged: "currentFile (app p0) = Some f"
    and fresh: "u \<notin> set (map id_of (history (app p0)))" "u \<notin> set (map task_id (tasks p0))"
    and quiet1: "\<forall>e \<in> set es1. \<not> about u e"
    and quiet2: "\<forall>e \<in> set es2. \<not> about u e"
    and later: "\<forall>e \<in> set es3. \<not> regenerates u e"
  shows "status r = Pending \<and> result r = None
       \<and> records_with u (history (app p1)) = [r]
       \<and> records_with u (history (app p2)) = [r]
       \<and> records_with u (history (app p3)) = [r\<lparr>status := Completed, result := Some res\<rparr>]
       \<and> records_with u (history (app p4)) = [r\<lparr>status := Completed, result := Some res\<rparr>]"
proof -
  let ?t = "\<lparr>task_id = u, task_file = f, task_language = selectedLanguage (app p0),
             task_stage = AwaitEncode\<rparr>"
  let ?q0 = "step (Run u now) p0"
  have q0: "records_with u (history (app ?q0)) = [r]"
           "filter (\<lambda>t. task_id t = u) (tasks ?q0) = [?t]"
    using step_run_fresh [OF staged fresh] r_def by simp_all
  have h1: "records_with u (history (app p1)) = [r]"
    and t1: "filter (\<lambda>t. task_id t = u) (tasks p1) = [?t]"
    using exec_frame [OF quiet1, of ?q0] q0 p1_def by simp_all
  obtain ts where tt1: "take_task u (tasks p1) = Some (?t, ts)"
    and ts: "filter (\<lambda>t. task_id t = u) ts = []"
    using take_task_single [OF t1] by blast
  let ?t' = "?t\<lparr>task_stage := AwaitAnalysis (js_index (split_on CHR '','' url) 1)\<rparr>"
  let ?q1 = "step (ReaderSettles u (Inr url)) p1"
  have q1eq: "?q1 = p1\<lparr>tasks := ?t' # ts\<rparr>"
    using step_reader_ok [OF tt1] by simp
  have q1: "records_with u (history (app ?q1)) = [r]"
           "filter (\<lambda>t. task_id t = u) (tasks ?q1) = [?t']"
    unfolding q1eq using h1 ts by simp_all
  have h2: "records_with u (history (app p2)) = [r]"
    and t2: "filter (\<lambda>t. task_id t = u) (tasks p2) = [?t']"
    using exec_frame [OF quiet2, of ?q1] q1 p2_def by simp_all
  obtain ts' where tt2: "take_task u (tasks p2) = Some (?t', ts')"
    and ts': "filter (\<lambda>t. task_id t = u) ts' = []"
    using take_task_single [OF t2] by blast
  have p3eq: "p3 = p2\<lparr>app := fst (runAnalysis_settle u (Inr res) (app p2)), tasks := ts'\<rparr>"
    unfolding p3_def using step_analysis [OF tt2] by simp
  have h3: "records_with u (history (app p3)) = [r\<lparr>status := Completed, result := Some res\<rparr>]"
    using h2 by (simp add: p3eq history_settle records_with_mark_completed)
  have t3: "filter (\<lambda>t. task_id t = u) (tasks p3) = []"
    using ts' by (simp add: p3eq)
  have h4: "records_with u (history (app p4)) = [r\<lparr>status := Completed, result := Some res\<rparr>]"
    using exec_gone [OF t3 later] h3 p4_def by simp
  have r: "status r = Pending" "result r = None"
    by (simp_all add: r_def newRecord_def)
  show ?thesis using r h1 h2 h3 h4 by simp
qed

theorem success_completes_record_once_witness:
  "records_with ''id1'' (history (app (exec [Select TAMIL] (step (Run ''id1'' 1000) staged_page)))) =
     [\<lparr>id_of = ''id1'', timestamp = 1000, fileName = ''sample.wav'', language = HINDI,
       result = None, status = Pending\<rparr>]
   \<and> records_with ''id1''
       (history (app
         (exec [ReaderSettles ''id2'' (Inl ReadError), AnalysisSettles ''id1'' (Inl AnalysisError),
                Change (Some [sample_wav]), Run ''id3'' 3000]
           (step (AnalysisSettles ''id1'' (Inr human_92))
             (exec [Run ''id2'' 2000]
               (step (ReaderSettles ''id1'' (Inr ''data:audio/wav;base64,UklGR''))
                 (exec [Select TAMIL] (step (Run ''id1'' 1000) staged_page)))))))) =
     [\<lparr>id_of = ''id1'', timestamp = 1000, fileName = ''sample.wav'', language = HINDI,
       result = Some human_92, status = Completed\<rparr>]"
proof -
  have staged: "currentFile (app staged_page) = Some sample_wav"
    by (simp add: staged_page_def)
  have fresh: "''id1'' \<notin> set (map id_of (history (app staged_page)))"
    "''id1'' \<notin> set (map task_id (tasks staged_page))"
    by (simp_all add: staged_page_def)
  have quiet1: "\<forall>e \<in> set [Select TAMIL]. \<not> about ''id1'' e" by simp
  have quiet2: "\<forall>e \<in> set [Run ''id2'' 2000]. \<not> about ''id1'' e" by simp
  have later: "\<forall>e \<in> set [ReaderSettles ''id2'' (Inl ReadError),
      AnalysisSettles ''id1'' (Inl AnalysisError), Change (Some [sample_wav]), Run ''id3'' 3000].
      \<not> regenerates ''id1'' e" by simp
  have sel: "selectedLanguage (app staged_page) = HINDI" by (simp add: staged_page_def)
  show ?thesis
    using success_completes_record_once [OF staged fresh quiet1 quiet2 later,
        of 1000 "''data:audio/wav;base64,UklGR''" human_92]
    by (simp only: sel) (simp add: newRecord_def sample_wav_def)
qed

section \<open>Pages reached with fresh ids\<close>

lemma settle_ids:
  "map id_of (history (fst (runAnalysis_settle v tried s))) = map id_of (history s)"
  by (simp add: history_settle mark_error_def mark_completed_def split: sum.splits)

lemma settle_keeps:
  "rec \<in> set (history s) \<Longrightarrow> id_of rec \<noteq> v \<Longrightarrow>
     rec \<in> set (history (fst (runAnalysis_settle v tried s)))"
  by (force simp add: history_settle mark_error_def mark_completed_def split: sum.splits)

lemma page_ok_settle:
  assumes ok: "page_ok p" and tt: "take_task v (tasks p) = Some (t, ts)"
  shows "page_ok (p\<lparr>app := fst (runAnalysis_settle v tried (app p)), tasks := ts\<rparr>)"
proof -
  let ?s = "fst (runAnalysis_settle v tried (app p))"
  from ok have d1: "distinct (map id_of (history (app p)))"
    and d2: "distinct (map task_id (tasks p))"
    and d3: "\<forall>t \<in> set (tasks p). \<exists>rec \<in> set (history (app p)).
               id_of rec = task_id t \<and> status rec = Pending \<and> result rec = None"
    by (simp_all add: page_ok_def)
  have sub: "set (tasks p) = insert t (set ts)" using take_task_Some [OF tt] by simp
  have d2': "distinct (map task_id ts)" and nin: "v \<notin> set (map task_id ts)"
    using take_task_distinct [OF tt d2] by simp_all
  have d1': "distinct (map id_of (history ?s))" using d1 by (simp add: settle_ids)
  have d3': "\<forall>t \<in> set ts. \<exists>rec \<in> set (history ?s).
               id_of rec = task_id t \<and> status rec = Pending \<and> result rec = None"
  proof
    fix t' assume t': "t' \<in> set ts"
    then have ne: "task_id t' \<noteq> v" using nin by auto
    from t' sub d3 obtain rec where rec: "rec \<in> set (history (app p))"
      "id_of rec = task_id t'" "status rec = Pending" "result rec = None" by auto
    then have "rec \<in> set (history ?s)" using settle_keeps ne by simp
    with rec show "\<exists>rec \<in> set (history ?s).
               id_of rec = task_id t' \<and> status rec = Pending \<and> result rec = None" by blast
  qed
  show ?thesis using d1' d2' d3' by (simp add: page_ok_def)
qed

lemma page_ok_run:
  assumes ok: "page_ok p" and fresh: "u \<notin> set (map id_of (history (app p)))"
  shows "page_ok (step (Run u now) p)"
proof (cases "currentFile (app p)")
  case None
  then show ?thesis using ok by (simp add: runAnalysis_begin_def)
next
  case (Some f)
  from ok have d1: "distinct (map id_of (history (app p)))"
    and d2: "distinct (map task_id (tasks p))"
    and d3: "\<forall>t \<in> set (tasks p). \<exists>rec \<in> set (history (app p)).
               id_of rec = task_id t \<and> status rec = Pending \<and> result rec = None"
    by (simp_all add: page_ok_def)
  have nin: "u \<notin> set (map task_id (tasks p))"
  proof
    assume "u \<in> set (map task_id (tasks p))"
    then obtain t where "t \<in> set (tasks p)" "task_id t = u" by auto
    with d3 obtain rec where "rec \<in> set (history (app p))" "id_of rec = u" by metis
    with fresh show False by auto
  qed
  show ?thesis
    using Some d1 d2 d3 fresh nin
    by (auto simp: page_ok_def runAnalysis_begin_def newRecord_def Let_def)
qed

lemma page_ok_step:
  assumes ok: "page_ok p"
    and fresh: "case e of Run u now \<Rightarrow> u \<notin> set (map id_of (history (app p))) | _ \<Rightarrow> True"
  shows "page_ok (step e p)"
proof (cases e)
  case (Change files)
  then show ?thesis using ok by (simp add: page_ok_def handleFileUpload_def split: option.splits)
next
  case RemoveFile
  then show ?thesis using ok by (simp add: page_ok_def)
next
  case (Select lang)
  then show ?thesis using ok by (simp add: page_ok_def)
next
  case (Run u now)
  then show ?thesis using page_ok_run [OF ok] fresh by simp
next
  case (ReaderSettles v reader)
  show ?thesis
  proof (cases "take_task v (tasks p)")
    case None
    with ReaderSettles ok show ?thesis by simp
  next
    case (Some a)
    obtain t ts where tt: "take_task v (tasks p) = Some (t, ts)"
      using Some by (cases a) simp
    show ?thesis
    proof (cases "task_stage t")
      case (AwaitAnalysis b)
      then show ?thesis using ReaderSettles tt ok by simp
    next
      case AwaitEncode
      show ?thesis
      proof (cases reader)
        case (Inl err)
        show ?thesis
          unfolding ReaderSettles Inl step_reader_fail [OF tt AwaitEncode]
          by (rule page_ok_settle [OF ok tt])
      next
        case (Inr url)
        from ok have d1: "distinct (map id_of (history (app p)))"
          and d2: "distinct (map task_id (tasks p))"
          and d3: "\<forall>t \<in> set (tasks p). \<exists>rec \<in> set (history (app p)).
               id_of rec = task_id t \<and> status rec = Pending \<and> result rec = None"
          by (simp_all add: page_ok_def)
        have sub: "set (tasks p) = insert t (set ts)" and idt: "task_id t = v"
          using take_task_Some [OF tt] by simp_all
        have d2': "distinct (map task_id ts)" and nin: "v \<notin> set (map task_id ts)"
          using take_task_distinct [OF tt d2] by simp_all
        show ?thesis
          unfolding ReaderSettles Inr step_reader_ok [OF tt AwaitEncode]
          using d1 d2' nin d3 sub idt by (simp add: page_ok_def)
      qed
    qed
  qed
next
  case (AnalysisSettles v outcome)
  show ?thesis
  proof (cases "take_task v (tasks p)")
    case None
    with AnalysisSettles ok show ?thesis by simp
  next
    case (Some a)
    obtain t ts where tt: "take_task v (tasks p) = Some (t, ts)"
      using Some by (cases a) simp
    show ?thesis
    proof (cases "task_stage t")
      case AwaitEncode
      then show ?thesis using AnalysisSettles tt ok by simp
    next
      case (AwaitAnalysis b)
      show ?thesis
        unfolding AnalysisSettles step_analysis [OF tt AwaitAnalysis]
        by (rule page_ok_settle [OF ok tt])
    qed
  qed
qed

lemma page_ok_initial: "page_ok page_initial"
  by (simp add: page_ok_def page_initial_def App_initial_def)

lemma page_ok_exec: "page_ok p \<Longrightarrow> uuid_fresh es p \<Longrightarrow> page_ok (exec es p)"
proof (induction es arbitrary: p)
  case Nil
  then show ?case by simp
next
  case (Cons e es)
  then have "page_ok (step e p)" using page_ok_step [of p e] by simp
  then show ?case using Cons by simp
qed


lemma page_ok_reachable: "uuid_fresh es page_initial \<Longrightarrow> page_ok (exec es page_initial)"
  using page_ok_exec [OF page_ok_initial] .

lemma distinct_map_eq:
  "distinct (map f xs) \<Longrightarrow> x \<in> set xs \<Longrightarrow> y \<in> set xs \<Longrightarrow> f x = f y \<Longrightarrow> x = y"
  by (simp add: distinct_map inj_on_def)

lemma records_with_distinct:
  "distinct (map id_of h) \<Longrightarrow> rec \<in> set h \<Longrightarrow> records_with (id_of rec) h = [rec]"
proof (induction h)
  case Nil
  then show ?case by simp
next
  case (Cons a h)
  show ?case
  proof (cases "a = rec")
    case True
    then have "\<forall>x \<in> set h. id_of x \<noteq> id_of rec" using Cons.prems(1) by (auto simp: image_iff)
    then have "filter (\<lambda>x. id_of x = id_of rec) h = []" by (simp add: filter_empty_conv)
    then show ?thesis using True by (simp add: records_with_def)
  next
    case False
    then have mem: "rec \<in> set h" using Cons.prems(2) by simp
    then have "id_of a \<noteq> id_of rec" using Cons.prems(1) by (auto simp: image_iff)
    then show ?thesis using Cons.IH mem Cons.prems(1) by (simp add: records_with_def)
  qed
qed

lemma terminal_kept_settle:
  assumes ok: "page_ok p" and tt: "take_task v (tasks p) = Some (t, ts)"
    and mem: "rec \<in> set (history (app p))" and fin: "status rec \<noteq> Pending"
  shows "rec \<in> set (history (fst (runAnalysis_settle v tried (app p))))"
proof -
  have t: "t \<in> set (tasks p)" and idt: "task_id t = v" using take_task_Some [OF tt] by simp_all
  from ok t obtain rec' where rec': "rec' \<in> set (history (app p))" "id_of rec' = task_id t"
    "status rec' = Pending" by (auto simp: page_ok_def)
  have d1: "distinct (map id_of (history (app p)))" using ok by (simp add: page_ok_def)
  have "id_of rec \<noteq> v"
  proof
    assume "id_of rec = v"
    then have "rec = rec'" using distinct_map_eq [OF d1 mem rec'(1)] rec'(2) idt by simp
    with rec'(3) fin show False by simp
  qed
  then show ?thesis using settle_keeps [OF mem] by simp
qed

lemma terminal_kept_step:
  assumes ok: "page_ok p"
    and mem: "rec \<in> set (history (app p))" and fin: "status rec \<noteq> Pending"
  shows "rec \<in> set (history (app (step e p)))"
proof (cases e)
  case (Change files)
  then show ?thesis using mem by (simp add: handleFileUpload_def split: option.splits)
next
  case RemoveFile
  then show ?thesis using mem by simp
next
  case (Select lang)
  then show ?thesis using mem by simp
next
  case (Run u now)
  then show ?thesis using mem
    by (simp add: runAnalysis_begin_def Let_def split: option.splits)
next
  case (ReaderSettles v reader)
  show ?thesis
  proof (cases "take_task v (tasks p)")
    case None
    with ReaderSettles mem show ?thesis by simp
  next
    case (Some a)
    obtain t ts where tt: "take_task v (tasks p) = Some (t, ts)"
      using Some by (cases a) simp
    show ?thesis
    proof (cases "task_stage t")
      case (AwaitAnalysis b)
      then show ?thesis using ReaderSettles tt mem by simp
    next
      case AwaitEncode
      show ?thesis
      proof (cases reader)
        case (Inl err)
        show ?thesis
          unfolding ReaderSettles Inl step_reader_fail [OF tt AwaitEncode]
          using terminal_kept_settle [OF ok tt mem fin] by simp
      next
        case (Inr url)
        show ?thesis
          unfolding ReaderSettles Inr step_reader_ok [OF tt AwaitEncode]
          using mem by simp
      qed
    qed
  qed
next
  case (AnalysisSettles v outcome)
  show ?thesis
  proof (cases "take_task v (tasks p)")
    case None
    with AnalysisSettles mem show ?thesis by simp
  next
    case (Some a)
    obtain t ts where tt: "take_task v (tasks p) = Some (t, ts)"
      using Some by (cases a) simp
    show ?thesis
    proof (cases "task_stage t")
      case AwaitEncode
      then show ?thesis using AnalysisSettles tt mem by simp
    next
      case (AwaitAnalysis b)
      show ?thesis
        unfolding AnalysisSettles step_analysis [OF tt AwaitAnalysis]
        using terminal_kept_settle [OF ok tt mem fin] by simp
    qed
  qed
qed

lemma terminal_kept_exec:
  "page_ok p \<Longrightarrow> uuid_fresh es p \<Longrightarrow> rec \<in> set (history (app p)) \<Longrightarrow> status rec \<noteq> Pending
     \<Longrightarrow> rec \<in> set (history (app (exec es p)))"
proof (induction es arbitrary: p)
  case Nil
  then show ?case by simp
next
  case (Cons e es)
  have ok': "page_ok (step e p)" using page_ok_step [of p e] Cons.prems by simp
  have mem': "rec \<in> set (history (app (step e p)))"
    using terminal_kept_step Cons.prems by simp
  show ?case using Cons.IH [OF ok' _ mem'] Cons.prems by simp
qed

text \<open>
  C6. On a page as runs with fresh ids reach it (\<open>page_ok\<close> holds of the first page and
  is kept by every such run), a record whose status is completed or error is final:
  after any further events in which every generated id is fresh, among them later
  submissions and their reconciliations, the history holds exactly one record with its
  id, and it is that record, with the status and the result it had.
\<close>

theorem terminal_status_final:
  assumes "page_ok p" and "uuid_fresh es p"
    and "rec \<in> set (history (app p))" and "status rec \<noteq> Pending"
  shows "records_with (id_of rec) (history (app (exec es p))) = [rec]"
proof -
  have "page_ok (exec es p)" using page_ok_exec assms by simp
  then have "distinct (map id_of (history (app (exec es p))))" by (simp add: page_ok_def)
  moreover have "rec \<in> set (history (app (exec es p)))"
    using terminal_kept_exec assms by simp
  ultimately show ?thesis by (rule records_with_distinct)
qed

theorem terminal_status_final_witness:
  "records_with ''id1''
     (history (app (exec [Change (Some [sample_wav]), Run ''id3'' 3000,
                          ReaderSettles ''id3'' (Inr ''data:audio/wav;base64,UklGR''),
                          AnalysisSettles ''id1'' (Inl AnalysisError),
                          ReaderSettles ''id2'' (Inl ReadError),
                          AnalysisSettles ''id3'' (Inl AnalysisError)] settled_page))) =
     [\<lparr>id_of = ''id1'', timestamp = 1000, fileName = ''sample.wav'', language = HINDI,
       result = Some human_92, status = Completed\<rparr>]"
proof -
  let ?rec = "\<lparr>id_of = ''id1'', timestamp = 1000, fileName = ''sample.wav'', language = HINDI,
       result = Some human_92, status = Completed\<rparr>"
  let ?es = "[Change (Some [sample_wav]), Run ''id3'' 3000,
              ReaderSettles ''id3'' (Inr ''data:audio/wav;base64,UklGR''),
              AnalysisSettles ''id1'' (Inl AnalysisError),
              ReaderSettles ''id2'' (Inl ReadError),
              AnalysisSettles ''id3'' (Inl AnalysisError)]"
  have ok: "page_ok settled_page" by (simp add: page_ok_def settled_page_def)
  have fresh: "uuid_fresh ?es settled_page" by (simp add: settled_page_def run_defs)
  have mem: "?rec \<in> set (history (app settled_page))" by (simp add: settled_page_def)
  have fin: "status ?rec \<noteq> Pending" by simp
  show ?thesis
    using terminal_status_final [OF ok fresh mem fin] by simp
qed

section \<open>Failed submissions\<close>

lemma unhandled_step: "unhandled (step e p) = unhandled p"
proof (cases e)
  case (ReaderSettles v reader)
  obtain s' where "runAnalysis_settle v (Inl ReadError) (app p) = (s', None)"
    using settle_eq by blast
  show ?thesis
  proof (cases "take_task v (tasks p)")
    case None
    with ReaderSettles show ?thesis by simp
  next
    case (Some a)
    obtain t ts where tt: "take_task v (tasks p) = Some (t, ts)"
      using Some by (cases a) simp
    show ?thesis
    proof (cases "task_stage t")
      case (AwaitAnalysis b)
      then show ?thesis using ReaderSettles tt by simp
    next
      case AwaitEncode
      show ?thesis
      proof (cases reader)
        case (Inl err)
        show ?thesis
          unfolding ReaderSettles Inl step_reader_fail [OF tt AwaitEncode] by simp
      next
        case (Inr url)
        show ?thesis
          unfolding ReaderSettles Inr step_reader_ok [OF tt AwaitEncode] by simp
      qed
    qed
  qed
next
  case (AnalysisSettles v outcome)
  show ?thesis
  proof (cases "take_task v (tasks p)")
    case None
    with AnalysisSettles show ?thesis by simp
  next
    case (Some a)
    obtain t ts where tt: "take_task v (tasks p) = Some (t, ts)"
      using Some by (cases a) simp
    show ?thesis
    proof (cases "task_stage t")
      case AwaitEncode
      then show ?thesis using AnalysisSettles tt by simp
    next
      case (AwaitAnalysis b)
      show ?thesis
        unfolding AnalysisSettles step_analysis [OF tt AwaitAnalysis] by simp
    qed
  qed
qed (simp_all add: runAnalysis_begin_def Let_def split: option.splits)

lemma unhandled_exec: "unhandled (exec es p) = unhandled p"
  by (induction es arbitrary: p) (simp_all add: unhandled_step)

text \<open>
  C3. Take a submission that fails: \<open>runAnalysis\<close> starts with a file staged and draws an
  id \<open>u\<close> that no record and no suspended invocation has, and only events that are not
  about \<open>u\<close> happen while it waits. When the reader fails at the first await, or the
  reader loads the file and the service fails at the second, the one record with id \<open>u\<close>,
  pending until then, becomes that record with status error, its result still absent.
  The failure does not leave \<open>runAnalysis\<close>: the exceptions unhandled after the failure
  are those unhandled before the submission.
\<close>

theorem failure_marks_record_error:
  fixes p0 :: page and u :: string and now :: int and f :: File
    and es1 es2 :: "event list" and url :: string
  defines "r \<equiv> newRecord u now f (selectedLanguage (app p0))"
    and "p1 \<equiv> exec es1 (step (Run u now) p0)"
  defines "p2 \<equiv> exec es2 (step (ReaderSettles u (Inr url)) p1)"
  assumes staged: "currentFile (app p0) = Some f"
    and fresh: "u \<notin> set (map id_of (history (app p0)))" "u \<notin> set (map task_id (tasks p0))"
    and quiet1: "\<forall>e \<in> set es1. \<not> about u e"
    and quiet2: "\<forall>e \<in> set es2. \<not> about u e"
  shows "records_with u (history (app p1)) = [r]
       \<and> records_with u (history (app (step (ReaderSettles u (Inl err)) p1))) = [r\<lparr>status := Error\<rparr>]
       \<and> unhandled (step (ReaderSettles u (Inl err)) p1) = unhandled p0
       \<and> records_with u (history (app p2)) = [r]
       \<and> records_with u (history (app (step (AnalysisSettles u (Inl err2)) p2))) = [r\<lparr>status := Error\<rparr>]
       \<and> unhandled (step (AnalysisSettles u (Inl err2)) p2) = unhandled p0
       \<and> status r = Pending \<and> result (r\<lparr>status := Error\<rparr>) = None"
proof -
  let ?t = "\<lparr>task_id = u, task_file = f, task_language = selectedLanguage (app p0),
             task_stage = AwaitEncode\<rparr>"
  let ?q0 = "step (Run u now) p0"
  have q0: "records_with u (history (app ?q0)) = [r]"
           "filter (\<lambda>t. task_id t = u) (tasks ?q0) = [?t]"
    using step_run_fresh [OF staged fresh] r_def by simp_all
  have h1: "records_with u (history (app p1)) = [r]"
    and t1: "filter (\<lambda>t. task_id t = u) (tasks p1) = [?t]"
    using exec_frame [OF quiet1, of ?q0] q0 p1_def by simp_all
  obtain ts where tt1: "take_task u (tasks p1) = Some (?t, ts)"
    and ts: "filter (\<lambda>t. task_id t = u) ts = []"
    using take_task_single [OF t1] by blast
  have e1: "records_with u (history (app (step (ReaderSettles u (Inl err)) p1))) = [r\<lparr>status := Error\<rparr>]"
    using step_reader_fail [OF tt1] h1 by (simp add: history_settle records_with_mark_error)
  let ?t' = "?t\<lparr>task_stage := AwaitAnalysis (js_index (split_on CHR '','' url) 1)\<rparr>"
  let ?q1 = "step (ReaderSettles u (Inr url)) p1"
  have q1eq: "?q1 = p1\<lparr>tasks := ?t' # ts\<rparr>"
    using step_reader_ok [OF tt1] by simp
  have q1: "records_with u (history (app ?q1)) = [r]"
           "filter (\<lambda>t. task_id t = u) (tasks ?q1) = [?t']"
    unfolding q1eq using h1 ts by simp_all
  have h2: "records_with u (history (app p2)) = [r]"
    and t2: "filter (\<lambda>t. task_id t = u) (tasks p2) = [?t']"
    using exec_frame [OF quiet2, of ?q1] q1 p2_def by simp_all
  obtain ts' where tt2: "take_task u (tasks p2) = Some (?t', ts')"
    using take_task_single [OF t2] by blast
  have e2: "records_with u (history (app (step (AnalysisSettles u (Inl err2)) p2))) = [r\<lparr>status := Error\<rparr>]"
    using step_analysis [OF tt2] h2 by (simp add: history_settle records_with_mark_error)
  have u1: "unhandled (step (ReaderSettles u (Inl err)) p1) = unhandled p0"
    by (simp only: unhandled_step unhandled_exec p1_def)
  have u2: "unhandled (step (AnalysisSettles u (Inl err2)) p2) = unhandled p0"
    by (simp only: unhandled_step unhandled_exec p1_def p2_def)
  have r: "status r = Pending" "result (r\<lparr>status := Error\<rparr>) = None"
    by (simp_all add: r_def newRecord_def)
  show ?thesis using h1 e1 u1 h2 e2 u2 r by simp
qed

theorem failure_marks_record_error_witness:
  "records_with ''id1''
     (history (app (step (ReaderSettles ''id1'' (Inl ReadError))
                     (exec [Select TAMIL] (step (Run ''id1'' 1000) staged_page))))) =
     [\<lparr>id_of = ''id1'', timestamp = 1000, fileName = ''sample.wav'', language = HINDI,
       result = None, status = Error\<rparr>]
   \<and> records_with ''id1''
       (history (app (step (AnalysisSettles ''id1'' (Inl AnalysisError))
                       (exec [Run ''id2'' 2000]
                         (step (ReaderSettles ''id1'' (Inr ''data:audio/wav;base64,UklGR''))
                           (exec [Select TAMIL] (step (Run ''id1'' 1000) staged_page))))))) =
     [\<lparr>id_of = ''id1'', timestamp = 1000, fileName = ''sample.wav'', language = HINDI,
       result = None, status = Error\<rparr>]
   \<and> unhandled (step (AnalysisSettles ''id1'' (Inl AnalysisError))
                  (exec [Run ''id2'' 2000]
                    (step (ReaderSettles ''id1'' (Inr ''data:audio/wav;base64,UklGR''))
                      (exec [Select TAMIL] (step (Run ''id1'' 1000) staged_page))))) = []"
proof -
  have staged: "currentFile (app staged_page) = Some sample_wav"
    by (simp add: staged_page_def)
  have fresh: "''id1'' \<notin> set (map id_of (history (app staged_page)))"
    "''id1'' \<notin> set (map task_id (tasks staged_page))"
    by (simp_all add: staged_page_def)
  have quiet1: "\<forall>e \<in> set [Select TAMIL]. \<not> about ''id1'' e" by simp
  have quiet2: "\<forall>e \<in> set [Run ''id2'' 2000]. \<not> about ''id1'' e" by simp
  have sel: "selectedLanguage (app staged_page) = HINDI" "unhandled staged_page = []"
    by (simp_all add: staged_page_def)
  show ?thesis
    using failure_marks_record_error [OF staged fresh quiet1 quiet2,
        of 1000 ReadError "''data:audio/wav;base64,UklGR''" AnalysisError]
    by (simp only: sel) (simp add: newRecord_def sample_wav_def)
qed

section \<open>The end of an invocation\<close>

lemma settle_fields:
  "isAnalyzing (fst (runAnalysis_settle v tried s)) = False
   \<and> currentFile (fst (runAnalysis_settle v tried s)) = None
   \<and> fileInputRef (fst (runAnalysis_settle v tried s)) =
       (case fileInputRef s of None \<Rightarrow> None | Some x \<Rightarrow> Some [])
   \<and> selectedLanguage (fst (runAnalysis_settle v tried s)) = selectedLanguage s"
  by (simp add: runAnalysis_settle_def finally_block_def split: sum.splits)

lemma stored_settle:
  "map stored (history (fst (runAnalysis_settle v tried s))) = map stored (history s)"
  by (simp add: history_settle mark_error_def mark_completed_def stored_def split: sum.splits)

text \<open>
  C7. Whenever an invocation of \<open>runAnalysis\<close> that was started with a staged file ends,
  through the reader's failure, the service's failure or the service's answer, then
  afterwards \<open>isAnalyzing\<close> is false, no file is staged and the file input, when it is
  mounted, has the empty value; another invocation of \<open>runAnalysis\<close> at that point changes
  nothing.
\<close>

theorem runAnalysis_end_resets:
  assumes "ends_invocation e p"
  shows "isAnalyzing (app (step e p)) = False
       \<and> currentFile (app (step e p)) = None
       \<and> fileInputRef (app (step e p)) =
           (case fileInputRef (app p) of None \<Rightarrow> None | Some x \<Rightarrow> Some [])
       \<and> step (Run u now) (step e p) = step e p"
proof -
  have "\<exists>v tried ts. step e p = p\<lparr>app := fst (runAnalysis_settle v tried (app p)), tasks := ts\<rparr>"
  proof (cases e)
    case (ReaderSettles v reader)
    with assms obtain err where reader: "reader = Inl err" by (cases reader) simp_all
    from assms obtain t ts where tt: "take_task v (tasks p) = Some (t, ts)"
      and st: "task_stage t = AwaitEncode"
      unfolding ReaderSettles reader by (auto split: option.splits)
    show ?thesis unfolding ReaderSettles reader step_reader_fail [OF tt st] by blast
  next
    case (AnalysisSettles v outcome)
    from assms obtain t ts where tt: "take_task v (tasks p) = Some (t, ts)"
      and st: "task_stage t \<noteq> AwaitEncode"
      unfolding AnalysisSettles by (auto split: option.splits)
    from st obtain b where st': "task_stage t = AwaitAnalysis b" by (cases "task_stage t") simp_all
    show ?thesis unfolding AnalysisSettles step_analysis [OF tt st'] by blast
  qed (use assms in simp_all)
  then obtain v tried ts where
    eq: "step e p = p\<lparr>app := fst (runAnalysis_settle v tried (app p)), tasks := ts\<rparr>" by blast
  show ?thesis
    unfolding eq using settle_fields [of v tried "app p"]
    by (simp add: runAnalysis_begin_def)
qed

theorem runAnalysis_end_resets_witness:
  "isAnalyzing (app (step (AnalysisSettles ''id1'' (Inr human_92)) two_pending)) = False
   \<and> currentFile (app (step (AnalysisSettles ''id1'' (Inr human_92)) two_pending)) = None
   \<and> fileInputRef (app (step (AnalysisSettles ''id1'' (Inr human_92)) two_pending)) = Some []
   \<and> step (Run ''id3'' 3000) (step (AnalysisSettles ''id1'' (Inr human_92)) two_pending) =
       step (AnalysisSettles ''id1'' (Inr human_92)) two_pending
   \<and> currentFile (app (step (ReaderSettles ''id2'' (Inl ReadError)) two_pending)) = None"
proof -
  have e1: "ends_invocation (AnalysisSettles ''id1'' (Inr human_92)) two_pending"
    by (simp add: two_pending_def)
  have e2: "ends_invocation (ReaderSettles ''id2'' (Inl ReadError)) two_pending"
    by (simp add: two_pending_def)
  have ref: "fileInputRef (app two_pending) = Some ''sample.wav''"
    by (simp add: two_pending_def)
  show ?thesis
    using runAnalysis_end_resets [OF e1, of "''id3''" 3000]
      runAnalysis_end_resets [OF e2, of "''id3''" 3000]
    by (simp only: ref) simp
qed

section \<open>Reconciliation\<close>

lemma mark_error_nth:
  "i < length h \<Longrightarrow> mark_error u h ! i =
     (if id_of (h ! i) = u then (h ! i)\<lparr>status := Error\<rparr> else h ! i)"
  by (simp add: mark_error_def)

lemma mark_completed_nth:
  "i < length h \<Longrightarrow> mark_completed u res h ! i =
     (if id_of (h ! i) = u then (h ! i)\<lparr>status := Completed, result := Some res\<rparr> else h ! i)"
  by (simp add: mark_completed_def)

lemma settle_nth:
  "i < length (history s) \<Longrightarrow>
     history (fst (runAnalysis_settle u tried s)) ! i =
       (if id_of (history s ! i) = u
        then (case tried of
                Inr res \<Rightarrow> (history s ! i)\<lparr>status := Completed, result := Some res\<rparr>
              | Inl err \<Rightarrow> (history s ! i)\<lparr>status := Error\<rparr>)
        else history s ! i)"
  by (simp add: history_settle mark_error_nth mark_completed_nth split: sum.splits)

lemma settle_length:
  "length (history (fst (runAnalysis_settle u tried s))) = length (history s)"
  by (simp add: history_settle mark_error_def mark_completed_def split: sum.splits)

lemma step_settles_cases:
  assumes "e = ReaderSettles u reader \<or> e = AnalysisSettles u outcome"
  shows "history (app (step e p)) = history (app p)
       \<or> (\<exists>tried. history (app (step e p)) = history (fst (runAnalysis_settle u tried (app p))))"
proof (cases "take_task u (tasks p)")
  case None
  then have "step e p = p" using assms by auto
  then show ?thesis by simp
next
  case (Some a)
  obtain t ts where tt: "take_task u (tasks p) = Some (t, ts)"
    using Some by (cases a) simp
  from assms show ?thesis
  proof
    assume e: "e = ReaderSettles u reader"
    show ?thesis
    proof (cases "task_stage t")
      case (AwaitAnalysis b)
      then have "step e p = p" using e tt by simp
      then show ?thesis by simp
    next
      case AwaitEncode
      show ?thesis
      proof (cases reader)
        case (Inl err)
        show ?thesis unfolding e Inl step_reader_fail [OF tt AwaitEncode] by auto
      next
        case (Inr url)
        show ?thesis unfolding e Inr step_reader_ok [OF tt AwaitEncode] by simp
      qed
    qed
  next
    assume e: "e = AnalysisSettles u outcome"
    show ?thesis
    proof (cases "task_stage t")
      case AwaitEncode
      then have "step e p = p" using e tt by simp
      then show ?thesis by simp
    next
      case (AwaitAnalysis b)
      show ?thesis unfolding e step_analysis [OF tt AwaitAnalysis] by auto
    qed
  qed
qed

text \<open>
  C8. The reconciliation at the end of an invocation with id \<open>u\<close> finds its record by
  the id: the history keeps its length, every record with id \<open>u\<close>, at whatever position,
  gets the new status (and the result, on success), and every record with another id
  is left as it is, field by field. When the ids in the history are distinct, at most
  one position changes. The same frame holds for the two events that can run the
  reconciliation.
\<close>

theorem reconcile_by_id_only:
  fixes s :: app_state and p :: page and u :: string
    and tried :: "failure + analysis_result"
  defines "h \<equiv> history s" and "h' \<equiv> history (fst (runAnalysis_settle u tried s))"
  shows "length h' = length h
       \<and> (\<forall>i < length h. h' ! i =
            (if id_of (h ! i) = u
             then (case tried of
                     Inr res \<Rightarrow> (h ! i)\<lparr>status := Completed, result := Some res\<rparr>
                   | Inl err \<Rightarrow> (h ! i)\<lparr>status := Error\<rparr>)
             else h ! i))
       \<and> (distinct (map id_of h) \<longrightarrow>
            (\<forall>i < length h. \<forall>j < length h. h' ! i \<noteq> h ! i \<and> h' ! j \<noteq> h ! j \<longrightarrow> i = j))
       \<and> (\<forall>e \<in> {ReaderSettles u reader, AnalysisSettles u outcome}.
            length (history (app (step e p))) = length (history (app p))
            \<and> (\<forall>i < length (history (app p)). id_of (history (app p) ! i) \<noteq> u \<longrightarrow>
                  history (app (step e p)) ! i = history (app p) ! i))"
proof -
  have a: "length h' = length h" by (simp add: h_def h'_def settle_length)
  have b: "\<forall>i < length h. h' ! i =
            (if id_of (h ! i) = u
             then (case tried of
                     Inr res \<Rightarrow> (h ! i)\<lparr>status := Completed, result := Some res\<rparr>
                   | Inl err \<Rightarrow> (h ! i)\<lparr>status := Error\<rparr>)
             else h ! i)"
    unfolding h_def h'_def using settle_nth by blast
  have c: "distinct (map id_of h) \<longrightarrow>
            (\<forall>i < length h. \<forall>j < length h. h' ! i \<noteq> h ! i \<and> h' ! j \<noteq> h ! j \<longrightarrow> i = j)"
  proof (intro impI allI)
    fix i j
    assume d: "distinct (map id_of h)" and i: "i < length h" and j: "j < length h"
      and ne: "h' ! i \<noteq> h ! i \<and> h' ! j \<noteq> h ! j"
    from b i ne have "id_of (h ! i) = u" by (metis (full_types))
    moreover from b j ne have "id_of (h ! j) = u" by (metis (full_types))
    ultimately have "map id_of h ! i = map id_of h ! j" using i j by simp
    then show "i = j" using d i j nth_eq_iff_index_eq [of "map id_of h" i j] by simp
  qed
  have d: "\<forall>e \<in> {ReaderSettles u reader, AnalysisSettles u outcome}.
            length (history (app (step e p))) = length (history (app p))
            \<and> (\<forall>i < length (history (app p)). id_of (history (app p) ! i) \<noteq> u \<longrightarrow>
                  history (app (step e p)) ! i = history (app p) ! i)"
  proof
    fix e assume "e \<in> {ReaderSettles u reader, AnalysisSettles u outcome}"
    then have "e = ReaderSettles u reader \<or> e = AnalysisSettles u outcome" by simp
    from step_settles_cases [OF this, of p]
    show "length (history (app (step e p))) = length (history (app p))
            \<and> (\<forall>i < length (history (app p)). id_of (history (app p) ! i) \<noteq> u \<longrightarrow>
                  history (app (step e p)) ! i = history (app p) ! i)"
    proof
      assume "history (app (step e p)) = history (app p)"
      then show ?thesis by simp
    next
      assume "\<exists>tried. history (app (step e p)) = history (fst (runAnalysis_settle u tried (app p)))"
      then obtain tr where "history (app (step e p)) = history (fst (runAnalysis_settle u tr (app p)))"
        by blast
      then show ?thesis by (simp add: settle_length settle_nth)
    qed
  qed
  show ?thesis using a b c d by blast
qed

theorem reconcile_by_id_only_witness:
  "history (fst (runAnalysis_settle ''id1'' (Inr human_92) (app two_pending))) =
     [\<lparr>id_of = ''id2'', timestamp = 2000, fileName = ''sample.wav'', language = TAMIL,
       result = None, status = Pending\<rparr>,
      \<lparr>id_of = ''id1'', timestamp = 1000, fileName = ''sample.wav'', language = HINDI,
       result = Some human_92, status = Completed\<rparr>]
   \<and> history (app (step (AnalysisSettles ''id1'' (Inl AnalysisError)) two_pending)) ! 0 =
       history (app two_pending) ! 0"
proof -
  have len: "length (history (app two_pending)) = 2" by (simp add: two_pending_def)
  have other: "id_of (history (app two_pending) ! 0) \<noteq> ''id1''" by (simp add: two_pending_def)
  have "history (app (step (AnalysisSettles ''id1'' (Inl AnalysisError)) two_pending)) ! 0 =
       history (app two_pending) ! 0"
    using reconcile_by_id_only [of "''id1''" "Inr human_92" "app two_pending" "Inl ReadError"
        "Inl AnalysisError" two_pending] len other
    by simp
  moreover have "history (fst (runAnalysis_settle ''id1'' (Inr human_92) (app two_pending))) =
     [\<lparr>id_of = ''id2'', timestamp = 2000, fileName = ''sample.wav'', language = TAMIL,
       result = None, status = Pending\<rparr>,
      \<lparr>id_of = ''id1'', timestamp = 1000, fileName = ''sample.wav'', language = HINDI,
       result = Some human_92, status = Completed\<rparr>]"
    by (simp add: two_pending_def run_defs)
  ultimately show ?thesis by simp
qed

section \<open>The history as a log\<close>

lemma history_step:
  "(\<exists>f u now. e = Run u now \<and> currentFile (app p) = Some f
        \<and> history (app (step e p)) = newRecord u now f (selectedLanguage (app p)) # history (app p))
   \<or> map stored (history (app (step e p))) = map stored (history (app p))"
proof (cases e)
  case (Change files)
  then show ?thesis by (simp add: handleFileUpload_def split: option.splits)
next
  case RemoveFile
  then show ?thesis by simp
next
  case (Select lang)
  then show ?thesis by simp
next
  case (Run u now)
  then show ?thesis by (cases "currentFile (app p)") (simp_all add: runAnalysis_begin_def Let_def)
next
  case (ReaderSettles u reader)
  then have "e = ReaderSettles u reader \<or> e = AnalysisSettles u (Inl AnalysisError)" by simp
  from step_settles_cases [OF this, of p] show ?thesis by (auto simp: stored_settle)
next
  case (AnalysisSettles u outcome)
  then have "e = ReaderSettles u (Inl ReadError) \<or> e = AnalysisSettles u outcome" by simp
  from step_settles_cases [OF this, of p] show ?thesis by (auto simp: stored_settle)
qed

lemma suffix_step:
  "suffix (map stored (history (app p))) (map stored (history (app (step e p))))"
  using history_step [of e p] by (auto simp: suffix_def)

lemma suffix_exec:
  "suffix (map stored (history (app p))) (map stored (history (app (exec es p))))"
proof (induction es arbitrary: p)
  case Nil
  then show ?case by simp
next
  case (Cons e es)
  show ?case using suffix_step [of p e] Cons.IH [of "step e p"] by (auto intro: suffix_order.trans)
qed

lemma exec_append: "exec (xs @ ys) p = exec ys (exec xs p)"
  by (induction xs arbitrary: p) simp_all

lemma submit_one:
  fixes p :: page and sub :: submission
  defines "p' \<equiv> exec (submit_events sub) p"
  assumes "tasks p = []"
  shows "tasks p' = [] \<and> selectedLanguage (app p') = selectedLanguage (app p)
       \<and> map stored (history (app p')) =
           (sub_uuid sub, sub_now sub, file_name (sub_file sub), selectedLanguage (app p))
           # map stored (history (app p))"
proof -
  let ?u = "sub_uuid sub"
  let ?f = "sub_file sub"
  let ?t = "\<lparr>task_id = ?u, task_file = ?f, task_language = selectedLanguage (app p),
             task_stage = AwaitEncode\<rparr>"
  let ?r = "newRecord ?u (sub_now sub) ?f (selectedLanguage (app p))"
  define p1 where "p1 = step (Run ?u (sub_now sub)) (step (Change (Some [?f])) p)"
  have p1: "tasks p1 = [?t]" "selectedLanguage (app p1) = selectedLanguage (app p)"
    "history (app p1) = ?r # history (app p)"
    using assms(2)
    by (simp_all add: p1_def handleFileUpload_def first_file_def runAnalysis_begin_def Let_def)
  have tt: "take_task ?u (tasks p1) = Some (?t, [])" by (simp add: p1(1))
  have st: "task_stage ?t = AwaitEncode" by simp
  have p': "p' = step (AnalysisSettles ?u (sub_analysis sub)) (step (ReaderSettles ?u (sub_reader sub)) p1)"
    by (simp only: p'_def p1_def submit_events_def exec.simps)
  have r: "stored ?r = (sub_uuid sub, sub_now sub, file_name (sub_file sub), selectedLanguage (app p))"
    by (simp add: stored_def newRecord_def)
  show ?thesis
  proof (cases "sub_reader sub")
    case (Inl err)
    define p2 where "p2 = step (ReaderSettles ?u (Inl err)) p1"
    have p2: "p2 = p1\<lparr>app := fst (runAnalysis_settle ?u (Inl err) (app p1)), tasks := []\<rparr>"
      unfolding p2_def using step_reader_fail [OF tt st] .
    have none: "take_task ?u (tasks p2) = None" unfolding p2 by simp
    have "p' = p2" unfolding p' Inl p2_def [symmetric]
      using step_analysis_ignored [of ?u p2] none by simp
    then show ?thesis
      unfolding p2 using r p1 by (simp add: stored_settle settle_fields)
  next
    case (Inr url)
    let ?t' = "?t\<lparr>task_stage := AwaitAnalysis (js_index (split_on CHR '','' url) 1)\<rparr>"
    define p2 where "p2 = step (ReaderSettles ?u (Inr url)) p1"
    have p2: "p2 = p1\<lparr>tasks := [?t']\<rparr>"
      unfolding p2_def using step_reader_ok [OF tt st] .
    have tt2: "take_task ?u (tasks p2) = Some (?t', [])" unfolding p2 by simp
    have st2: "task_stage ?t' = AwaitAnalysis (js_index (split_on CHR '','' url) 1)" by simp
    have "p' = p2\<lparr>app := fst (runAnalysis_settle ?u (sub_analysis sub) (app p2)), tasks := []\<rparr>"
      unfolding p' Inr p2_def [symmetric] using step_analysis [OF tt2 st2] .
    then show ?thesis
      unfolding p2 using r p1 by (simp add: stored_settle settle_fields)
  qed
qed

lemma submit_all_Cons:
  "submit_all (sub # subs) p = submit_all subs (exec (submit_events sub) p)"
  by (simp add: submit_all_def exec_append)

lemma submit_all_stored:
  "tasks p = [] \<Longrightarrow>
     map stored (history (app (submit_all subs p))) =
       rev (map (\<lambda>sub. (sub_uuid sub, sub_now sub, file_name (sub_file sub),
                        selectedLanguage (app p))) subs)
       @ map stored (history (app p))"
proof (induction subs arbitrary: p)
  case Nil
  then show ?case by (simp add: submit_all_def)
next
  case (Cons sub subs)
  let ?p' = "exec (submit_events sub) p"
  have one: "tasks ?p' = []" "selectedLanguage (app ?p') = selectedLanguage (app p)"
    "map stored (history (app ?p')) =
       (sub_uuid sub, sub_now sub, file_name (sub_file sub), selectedLanguage (app p))
       # map stored (history (app p))"
    using submit_one [OF Cons.prems, of sub] by simp_all
  show ?case
    unfolding submit_all_Cons using Cons.IH [OF one(1)] one(2,3) by simp
qed

lemma timestamp_stored: "map timestamp h = map (\<lambda>k. fst (snd k)) (map stored h)"
  by (simp add: stored_def)

text \<open>
  C5, as the specification states it: the history is append-only, and after submissions
  made one after the other its records are in strictly decreasing order of submission
  time. The second part does not hold of the \<open>timestamp\<close> field, which is what
  \<open>Date.now()\<close> returned: \<open>runAnalysis\<close> puts the new record in front and compares no
  timestamps. After two submissions with the same reading the timestamps are 1000 and
  1000, and after a submission made when the clock had been set back they are 900 and
  1000, the later submission in front in both cases.
\<close>

theorem history_timestamps_not_strict:
  "map timestamp (history (app (submit_all [first_submission, same_ms_submission] staged_page))) =
     [1000, 1000]
   \<and> \<not> sorted_wrt (>)
         (map timestamp
           (history (app (submit_all [first_submission, same_ms_submission] staged_page))))
   \<and> map timestamp
         (history (app (submit_all [first_submission, clock_back_submission] staged_page))) =
       [900, 1000]
   \<and> \<not> sorted_wrt (>)
         (map timestamp
           (history (app (submit_all [first_submission, clock_back_submission] staged_page))))"
proof -
  have a: "map timestamp
        (history (app (submit_all [first_submission, same_ms_submission] staged_page))) =
      [1000, 1000]"
    by (simp add: first_submission_def same_ms_submission_def sample_defs run_defs)
  have b: "map timestamp
        (history (app (submit_all [first_submission, clock_back_submission] staged_page))) =
      [900, 1000]"
    by (simp add: first_submission_def clock_back_submission_def sample_defs run_defs)
  show ?thesis unfolding a b by simp
qed

text \<open>
  C5, amended. The history only grows at its front. Whatever events happen, the records
  there before are still there, in their places behind the new ones, with the fields
  written at their creation. A single event either is an invocation of \<open>runAnalysis\<close>
  with a file staged, which puts one record in front, or leaves those fields of all
  records as they are. After submissions made one after the other, each ending before
  the next starts, the history lists them in the reverse order of submission, the last
  one first, in front of what was there, and their timestamps are the values that
  \<open>Date.now()\<close> returned, in that order. The timestamps of a history that was empty
  decrease strictly from front to back exactly when the value that \<open>Date.now()\<close> returned
  at each submission was greater than at the one before.
\<close>

theorem history_append_only_newest_first:
  "suffix (map stored (history (app p))) (map stored (history (app (exec es p))))
   \<and> ((\<exists>f u now. e = Run u now \<and> currentFile (app p) = Some f
          \<and> history (app (step e p)) = newRecord u now f (selectedLanguage (app p)) # history (app p))
       \<or> map stored (history (app (step e p))) = map stored (history (app p)))
   \<and> (tasks p = [] \<longrightarrow>
         map stored (history (app (submit_all subs p))) =
           rev (map (\<lambda>sub. (sub_uuid sub, sub_now sub, file_name (sub_file sub),
                            selectedLanguage (app p))) subs)
           @ map stored (history (app p)))
   \<and> (tasks p = [] \<longrightarrow>
         map timestamp (history (app (submit_all subs p))) =
           rev (map sub_now subs) @ map timestamp (history (app p)))
   \<and> (tasks p = [] \<and> history (app p) = [] \<longrightarrow>
         sorted_wrt (>) (map timestamp (history (app (submit_all subs p)))) =
           sorted_wrt (<) (map sub_now subs))"
proof -
  have ts: "map timestamp (history (app (submit_all subs p))) =
      rev (map sub_now subs) @ map timestamp (history (app p))" if "tasks p = []"
    unfolding timestamp_stored submit_all_stored [OF that]
    by (simp add: rev_map comp_def)
  have "sorted_wrt (>) (map timestamp (history (app (submit_all subs p)))) =
      sorted_wrt (<) (map sub_now subs)"
    if "tasks p = []" "history (app p) = []"
  proof -
    have "map timestamp (history (app (submit_all subs p))) = rev (map sub_now subs)"
      using ts [OF that(1)] that(2) by simp
    then show ?thesis by (simp add: sorted_wrt_rev)
  qed
  then show ?thesis
    using suffix_exec [of p es] history_step [of e p] submit_all_stored [of p subs] ts by blast
qed

theorem history_append_only_newest_first_witness:
  "map stored (history (app (submit_all [first_submission, second_submission] staged_page))) =
     [(''id2'', 2000, ''sample.wav'', HINDI), (''id1'', 1000, ''sample.wav'', HINDI)]
   \<and> map timestamp (history (app (submit_all [first_submission, second_submission] staged_page))) =
       [2000, 1000]
   \<and> sorted_wrt (>)
       (map timestamp (history (app (submit_all [first_submission, second_submission] staged_page))))"
proof -
  have t: "tasks staged_page = []" and h: "history (app staged_page) = []"
    by (simp_all add: staged_page_def)
  have clock: "sorted_wrt (<) (map sub_now [first_submission, second_submission])"
    by (simp add: first_submission_def second_submission_def)
  have sel: "selectedLanguage (app staged_page) = HINDI" by (simp add: staged_page_def)
  show ?thesis
    using history_append_only_newest_first
      [of staged_page "[]" RemoveFile "[first_submission, second_submission]"] t h clock sel
    by (simp add: first_submission_def second_submission_def sample_wav_def)
qed

end
